theory Spec2Isabelle
  imports Main
begin

section \<open>The bounded queue monitor of \<^verbatim>\<open>src/lab.c\<close>\<close>

text \<open>
  The program is one C file: a ring buffer of \<^verbatim>\<open>void *\<close> items guarded by a mutex and
  two condition variables. Every function locks the mutex first and unlocks it last, and
  \<^verbatim>\<open>pthread_cond_wait\<close> gives the mutex up only while the caller is parked. So each call
  acts on the struct in one uninterrupted piece: the stretch from the moment its wait loop
  finds its condition false to the unlock. The functions below are these pieces, as
  functions from the struct before the call to the struct after it.
\<close>

subsection \<open>Data\<close>

text \<open>A \<^verbatim>\<open>void *\<close> payload: the null pointer or some address. The queue never looks inside.\<close>

datatype ptr = NULL | Addr nat

text \<open>
  \<^verbatim>\<open>struct queue\<close>. The fields \<^verbatim>\<open>lock\<close>, \<^verbatim>\<open>not_full\<close> and \<^verbatim>\<open>not_empty\<close> carry no data of
  the queue and are left out; \<^verbatim>\<open>size\<close> is called \<open>size_q\<close> here. The \<^verbatim>\<open>int\<close> fields are
  integers: no reachable value leaves the range from \<open>-1\<close> to \<open>capacity\<close> (lemma
  \<open>run_invar\<close> below), so no C arithmetic on them overflows.
\<close>

record queue =
  buffer :: "ptr list"
  capacity :: int
  size_q :: int
  front :: int
  rear :: int
  is_shutdown_flag :: bool

text \<open>
  A \<^verbatim>\<open>queue_t\<close> is a pointer to a \<^verbatim>\<open>struct queue\<close>, taken together with what it points
  at: the null pointer, a live struct with its present contents, or storage that
  \<^verbatim>\<open>queue_destroy\<close> has already freed.
\<close>

datatype queue_t = Null_handle | Live queue | Freed

text \<open>
  How a call ends. \<open>Returns\<close>: it returns, with its value and the struct it leaves.
  \<open>Blocked\<close>: its wait loop finds the condition true, so the caller parks in
  \<^verbatim>\<open>pthread_cond_wait\<close> with the struct untouched and the call has not returned.
  \<open>Aborted\<close>: an \<^verbatim>\<open>assert\<close> fails and the process is killed. \<open>Undefined\<close>: the C
  standard gives the call no meaning (freed storage, an index outside the buffer,
  a remainder by zero).
\<close>

datatype 'a outcome = Returns 'a | Blocked | Aborted | Undefined

text \<open>
  What \<^verbatim>\<open>queue_init\<close> gets from the system: whether each of its five acquisitions
  succeeds, and the indeterminate contents of the block \<^verbatim>\<open>malloc\<close> hands out for the
  buffer (slot \<open>i\<close> holds \<open>junk i\<close>).
\<close>

record env =
  malloc_queue :: bool
  malloc_buffer :: "(nat \<Rightarrow> ptr) option"
  mutex_init :: bool
  cond_init_not_full :: bool
  cond_init_not_empty :: bool

subsection \<open>C arithmetic\<close>

text \<open>The \<^verbatim>\<open>%\<close> of C on \<^verbatim>\<open>int\<close>: the remainder of the division that truncates towards zero.\<close>

definition c_mod :: "int \<Rightarrow> int \<Rightarrow> int" where
  "c_mod a b = sgn a * (\<bar>a\<bar> mod \<bar>b\<bar>)"

subsection \<open>The functions\<close>

text \<open>
  \<^verbatim>\<open>queue_init\<close>, lines 28 to 76: the \<^verbatim>\<open>assert\<close>, then the five acquisitions in the
  order of the source, each with its early return of \<^verbatim>\<open>NULL\<close>. The fields are assigned
  after the second \<^verbatim>\<open>malloc\<close>. (The byte count \<^verbatim>\<open>capacity * sizeof(void *)\<close> of a
  positive \<^verbatim>\<open>int\<close> does not wrap in a 64-bit \<^verbatim>\<open>size_t\<close>, so the block has \<open>capacity\<close>
  slots.)
\<close>

definition queue_init :: "env \<Rightarrow> int \<Rightarrow> queue_t outcome" where
  "queue_init e cap =
     (if \<not> cap > 0 then Aborted
      else if \<not> malloc_queue e then Returns Null_handle
      else case malloc_buffer e of
        None \<Rightarrow> Returns Null_handle
      | Some junk \<Rightarrow>
          let q = \<lparr>buffer = map junk [0..<nat cap], capacity = cap, size_q = 0,
                   front = 0, rear = - 1, is_shutdown_flag = False\<rparr>
          in if \<not> mutex_init e then Returns Null_handle
             else if \<not> cond_init_not_full e then Returns Null_handle
             else if \<not> cond_init_not_empty e then Returns Null_handle
             else Returns (Live q))"

text \<open>\<^verbatim>\<open>queue_shutdown\<close>, lines 181 to 193.\<close>

definition queue_shutdown :: "queue_t \<Rightarrow> queue_t outcome" where
  "queue_shutdown q =
     (case q of
        Null_handle \<Rightarrow> Returns Null_handle
      | Freed \<Rightarrow> Undefined
      | Live s \<Rightarrow> Returns (Live (s\<lparr>is_shutdown_flag := True\<rparr>)))"

text \<open>
  \<^verbatim>\<open>queue_destroy\<close>, lines 83 to 103: shut down, broadcast once more, then destroy the
  synchronisation objects and free both blocks.
\<close>

definition queue_destroy :: "queue_t \<Rightarrow> queue_t outcome" where
  "queue_destroy q =
     (case q of
        Null_handle \<Rightarrow> Returns Null_handle
      | Freed \<Rightarrow> Undefined
      | Live s \<Rightarrow>
          (case queue_shutdown (Live s) of
             Returns (Live s') \<Rightarrow> Returns Freed
           | _ \<Rightarrow> Undefined))"

text \<open>
  \<^verbatim>\<open>enqueue\<close>, lines 111 to 137. The store \<^verbatim>\<open>q->buffer[q->rear] = data\<close> is defined only
  for an index inside the block, and \<^verbatim>\<open>%\<close> only for a divisor other than zero.
\<close>

definition enqueue :: "queue_t \<Rightarrow> ptr \<Rightarrow> queue_t outcome" where
  "enqueue q data =
     (case q of
        Null_handle \<Rightarrow> Returns Null_handle
      | Freed \<Rightarrow> Undefined
      | Live s \<Rightarrow>
          if size_q s = capacity s \<and> \<not> is_shutdown_flag s then Blocked
          else if is_shutdown_flag s then Returns (Live s)
          else if capacity s = 0 then Undefined
          else
            let r = c_mod (rear s + 1) (capacity s)
            in if r < 0 \<or> int (length (buffer s)) \<le> r then Undefined
               else Returns (Live (s\<lparr>rear := r,
                                      buffer := (buffer s)[nat r := data],
                                      size_q := size_q s + 1\<rparr>)))"

text \<open>
  \<^verbatim>\<open>dequeue\<close>, lines 145 to 173. It returns a \<^verbatim>\<open>void *\<close>: \<^verbatim>\<open>NULL\<close> from the branch for
  an empty buffer, the slot at \<^verbatim>\<open>front\<close> otherwise.
\<close>

definition dequeue :: "queue_t \<Rightarrow> (ptr \<times> queue_t) outcome" where
  "dequeue q =
     (case q of
        Null_handle \<Rightarrow> Returns (NULL, Null_handle)
      | Freed \<Rightarrow> Undefined
      | Live s \<Rightarrow>
          if size_q s = 0 \<and> \<not> is_shutdown_flag s then Blocked
          else if size_q s = 0 then Returns (NULL, Live s)
          else if front s < 0 \<or> int (length (buffer s)) \<le> front s then Undefined
          else if capacity s = 0 then Undefined
          else
            let data = buffer s ! nat (front s)
            in Returns (data, Live (s\<lparr>front := c_mod (front s + 1) (capacity s),
                                       size_q := size_q s - 1\<rparr>)))"

text \<open>\<^verbatim>\<open>is_empty\<close>, lines 201 to 211, and \<^verbatim>\<open>is_shutdown\<close>, lines 219 to 229.\<close>

definition is_empty :: "queue_t \<Rightarrow> (bool \<times> queue_t) outcome" where
  "is_empty q =
     (case q of
        Null_handle \<Rightarrow> Returns (True, Null_handle)
      | Freed \<Rightarrow> Undefined
      | Live s \<Rightarrow> Returns (size_q s = 0, Live s))"

definition is_shutdown :: "queue_t \<Rightarrow> (bool \<times> queue_t) outcome" where
  "is_shutdown q =
     (case q of
        Null_handle \<Rightarrow> Returns (True, Null_handle)
      | Freed \<Rightarrow> Undefined
      | Live s \<Rightarrow> Returns (is_shutdown_flag s, Live s))"

subsection \<open>Sequences of calls\<close>

text \<open>
  A call of any function of the interface, and the struct it leaves. A history of the
  queue is a list of calls, each one returning before the next is made; \<open>run\<close> stops
  at the first call that does not return. A parked call changes nothing until it leaves
  its loop, and then it acts as a call made at that moment, so the states that threads
  sharing the queue can reach are the states that \<open>run\<close> reaches.
\<close>

datatype call = Enqueue ptr | Dequeue | Shutdown | Is_empty | Is_shutdown | Destroy

definition state_of :: "('a \<times> queue_t) outcome \<Rightarrow> queue_t outcome" where
  "state_of r =
     (case r of
        Returns (v, q) \<Rightarrow> Returns q
      | Blocked \<Rightarrow> Blocked
      | Aborted \<Rightarrow> Aborted
      | Undefined \<Rightarrow> Undefined)"

fun step :: "queue_t \<Rightarrow> call \<Rightarrow> queue_t outcome" where
  "step q (Enqueue data) = enqueue q data"
| "step q Dequeue = state_of (dequeue q)"
| "step q Shutdown = queue_shutdown q"
| "step q Is_empty = state_of (is_empty q)"
| "step q Is_shutdown = state_of (is_shutdown q)"
| "step q Destroy = queue_destroy q"

fun run :: "queue_t \<Rightarrow> call list \<Rightarrow> queue_t outcome" where
  "run q [] = Returns q"
| "run q (c # cs) =
     (case step q c of
        Returns q' \<Rightarrow> run q' cs
      | Blocked \<Rightarrow> Blocked
      | Aborted \<Rightarrow> Aborted
      | Undefined \<Rightarrow> Undefined)"

text \<open>One thread enqueueing a list of items in order, then dequeueing \<open>n\<close> times.\<close>

fun enqueue_all :: "queue_t \<Rightarrow> ptr list \<Rightarrow> queue_t outcome" where
  "enqueue_all q [] = Returns q"
| "enqueue_all q (x # xs) =
     (case enqueue q x of
        Returns q' \<Rightarrow> enqueue_all q' xs
      | Blocked \<Rightarrow> Blocked
      | Aborted \<Rightarrow> Aborted
      | Undefined \<Rightarrow> Undefined)"

fun dequeue_n :: "queue_t \<Rightarrow> nat \<Rightarrow> (ptr list \<times> queue_t) outcome" where
  "dequeue_n q 0 = Returns ([], q)"
| "dequeue_n q (Suc n) =
     (case dequeue q of
        Returns (x, q') \<Rightarrow>
          (case dequeue_n q' n of
             Returns (xs, q'') \<Rightarrow> Returns (x # xs, q'')
           | Blocked \<Rightarrow> Blocked
           | Aborted \<Rightarrow> Aborted
           | Undefined \<Rightarrow> Undefined)
      | Blocked \<Rightarrow> Blocked
      | Aborted \<Rightarrow> Aborted
      | Undefined \<Rightarrow> Undefined)"

subsection \<open>Representation invariant and abstraction\<close>

text \<open>
  The shape every reachable struct has, and the items it buffers, oldest first: slot
  \<open>front\<close>, then the slots after it, wrapping at \<open>capacity\<close>.
\<close>

definition invar :: "queue \<Rightarrow> bool" where
  "invar s \<longleftrightarrow>
     0 < capacity s \<and> int (length (buffer s)) = capacity s \<and>
     0 \<le> size_q s \<and> size_q s \<le> capacity s \<and>
     0 \<le> front s \<and> front s < capacity s \<and>
     - 1 \<le> rear s \<and> rear s < capacity s \<and>
     (rear s + 1) mod capacity s = (front s + size_q s) mod capacity s"

definition contents :: "queue \<Rightarrow> ptr list" where
  "contents s =
     map (\<lambda>i. buffer s ! nat ((front s + int i) mod capacity s)) [0..<nat (size_q s)]"

text \<open>The invariant on a handle: it constrains a live struct only.\<close>

definition invar_t :: "queue_t \<Rightarrow> bool" where
  "invar_t q = (case q of Live s \<Rightarrow> invar s | Null_handle \<Rightarrow> True | Freed \<Rightarrow> True)"

text \<open>All five acquisitions of \<^verbatim>\<open>queue_init\<close> succeed.\<close>

definition acquired :: "env \<Rightarrow> bool" where
  "acquired e \<longleftrightarrow>
     malloc_queue e \<and> malloc_buffer e \<noteq> None \<and> mutex_init e \<and>
     cond_init_not_full e \<and> cond_init_not_empty e"

subsection \<open>Example values\<close>

text \<open>
  An environment in which every acquisition succeeds and the fresh block holds the null
  pointer in every slot, and one in which the second \<^verbatim>\<open>malloc\<close> fails.
\<close>

definition env_ok :: env where
  "env_ok = \<lparr>malloc_queue = True, malloc_buffer = Some (\<lambda>i. NULL), mutex_init = True,
              cond_init_not_full = True, cond_init_not_empty = True\<rparr>"

definition env_no_buffer :: env where
  "env_no_buffer = env_ok\<lparr>malloc_buffer := None\<rparr>"

text \<open>
  Four structs of capacity 3 that histories from \<open>queue_init env_ok 3\<close> reach (lemmas
  \<open>init_fresh\<close>, \<open>run_wrapped\<close>, \<open>run_full\<close>, \<open>run_shut\<close>): the fresh one, an empty one
  whose \<open>front\<close> has moved, a full one that wraps, and a shut-down one holding two
  items across the wrap.
\<close>

definition q_fresh :: queue where
  "q_fresh = \<lparr>buffer = [NULL, NULL, NULL], capacity = 3, size_q = 0, front = 0, rear = - 1,
               is_shutdown_flag = False\<rparr>"

definition q_wrapped :: queue where
  "q_wrapped = \<lparr>buffer = [Addr 1, NULL, NULL], capacity = 3, size_q = 0, front = 1, rear = 0,
                 is_shutdown_flag = False\<rparr>"

definition q_full :: queue where
  "q_full = \<lparr>buffer = [Addr 4, Addr 2, Addr 3], capacity = 3, size_q = 3, front = 1, rear = 0,
              is_shutdown_flag = False\<rparr>"

definition q_shut :: queue where
  "q_shut = \<lparr>buffer = [Addr 4, Addr 2, Addr 3], capacity = 3, size_q = 2, front = 2, rear = 0,
              is_shutdown_flag = True\<rparr>"

section \<open>Properties\<close>

subsection \<open>Arithmetic of the indices\<close>

lemma c_mod_nonneg: "0 \<le> a \<Longrightarrow> 0 < b \<Longrightarrow> c_mod a b = a mod b"
  by (cases "a = 0") (simp_all add: c_mod_def)

lemma mod_succ_shift: "0 < (c::int) \<Longrightarrow> ((a mod c) + 1) mod c = (a + 1) mod c"
  by (simp add: mod_add_left_eq)

lemma mod_distinct:
  fixes f c :: int
  assumes "0 \<le> i" "i < j" "j < i + c"
  shows "(f + i) mod c \<noteq> (f + j) mod c"
proof
  assume "(f + i) mod c = (f + j) mod c"
  then have "c dvd ((f + j) - (f + i))"
    by (metis mod_eq_dvd_iff)
  then have "c dvd (j - i)" by simp
  moreover have "0 < j - i" "j - i < c" using assms by auto
  ultimately show False
    using zdvd_not_zless by blast
qed

subsection \<open>The invariant, call by call\<close>

lemma init_invar:
  assumes "queue_init e cap = Returns (Live s)"
  shows "invar s \<and> capacity s = cap \<and> size_q s = 0 \<and> front s = 0 \<and> rear s = - 1 \<and> \<not> is_shutdown_flag s"
  using assms
  by (auto simp: queue_init_def invar_def Let_def split: if_splits option.splits)

lemma enqueue_Live:
  assumes "invar s" "\<not> is_shutdown_flag s" "size_q s < capacity s"
  shows "enqueue (Live s) d =
           Returns (Live (s\<lparr>rear := (front s + size_q s) mod capacity s,
                              buffer := (buffer s)[nat ((front s + size_q s) mod capacity s) := d],
                              size_q := size_q s + 1\<rparr>))"
proof -
  let ?c = "capacity s"
  have c: "0 < ?c" and r: "0 \<le> rear s + 1" and len: "int (length (buffer s)) = ?c"
    and eq: "(rear s + 1) mod ?c = (front s + size_q s) mod ?c"
    using assms(1) by (auto simp: invar_def)
  have cm: "c_mod (rear s + 1) ?c = (front s + size_q s) mod ?c"
    using c r eq by (simp add: c_mod_nonneg)
  have rng: "0 \<le> (front s + size_q s) mod ?c" "(front s + size_q s) mod ?c < ?c"
    using c by simp_all
  show ?thesis
    using assms(2,3) c rng len by (simp add: enqueue_def cm Let_def)
qed

lemma contents_snoc:
  assumes "invar s" "size_q s < capacity s"
  shows "contents (s\<lparr>rear := r,
                      buffer := (buffer s)[nat ((front s + size_q s) mod capacity s) := d],
                      size_q := size_q s + 1\<rparr>) = contents s @ [d]"
proof -
  let ?c = "capacity s" and ?n = "nat (size_q s)"
  let ?k = "nat ((front s + size_q s) mod ?c)"
  have c: "0 < ?c" and sz: "0 \<le> size_q s" and len: "int (length (buffer s)) = ?c"
    using assms(1) by (auto simp: invar_def)
  have n1: "nat (size_q s + 1) = Suc ?n" using sz by simp
  have klen: "?k < length (buffer s)"
    using c len by (simp add: nat_less_iff)
  have old: "(buffer s)[?k := d] ! nat ((front s + int i) mod ?c)
               = buffer s ! nat ((front s + int i) mod ?c)" if "i < ?n" for i
  proof -
    have "(front s + int i) mod ?c \<noteq> (front s + size_q s) mod ?c"
      using that sz assms(2) by (intro mod_distinct) auto
    moreover have "0 \<le> (front s + int i) mod ?c" "0 \<le> (front s + size_q s) mod ?c"
      using c by simp_all
    ultimately have "nat ((front s + int i) mod ?c) \<noteq> ?k" by simp
    then show ?thesis by simp
  qed
  have new: "(buffer s)[?k := d] ! nat ((front s + int ?n) mod ?c) = d"
    using sz klen by simp
  show ?thesis
    using old new by (simp add: contents_def n1)
qed

lemma enqueue_invar_step:
  assumes "invar s" "size_q s < capacity s"
  shows "invar (s\<lparr>rear := (front s + size_q s) mod capacity s,
                   buffer := (buffer s)[k := d],
                   size_q := size_q s + 1\<rparr>)"
proof -
  have c: "0 < capacity s" using assms(1) by (simp add: invar_def)
  have "((front s + size_q s) mod capacity s + 1) mod capacity s
          = (front s + (size_q s + 1)) mod capacity s"
    using c by (simp add: mod_succ_shift add.assoc)
  moreover have "- 1 \<le> (front s + size_q s) mod capacity s"
    using c by (smt (verit) pos_mod_sign)
  ultimately show ?thesis
    using assms c by (simp add: invar_def)
qed

lemma dequeue_Live:
  assumes "invar s" "size_q s \<noteq> 0"
  shows "dequeue (Live s) =
           Returns (buffer s ! nat (front s),
                    Live (s\<lparr>front := (front s + 1) mod capacity s, size_q := size_q s - 1\<rparr>))"
proof -
  have c: "0 < capacity s" and f: "0 \<le> front s" "front s < capacity s"
    and len: "int (length (buffer s)) = capacity s"
    using assms(1) by (auto simp: invar_def)
  have "c_mod (front s + 1) (capacity s) = (front s + 1) mod capacity s"
    using c f by (simp add: c_mod_nonneg)
  then show ?thesis
    using assms(2) c f len by (simp add: dequeue_def Let_def)
qed

lemma contents_Cons:
  assumes "invar s" "size_q s \<noteq> 0"
  shows "contents s =
           buffer s ! nat (front s) #
           contents (s\<lparr>front := (front s + 1) mod capacity s, size_q := size_q s - 1\<rparr>)"
proof -
  let ?c = "capacity s"
  have c: "0 < ?c" and f: "0 \<le> front s" "front s < ?c" and sz: "0 < size_q s"
    using assms by (auto simp: invar_def)
  obtain n where n: "nat (size_q s) = Suc n" "nat (size_q s - 1) = n"
    using sz by (metis Suc_nat_eq_nat_zadd1 add.commute diff_add_cancel zle_diff1_eq)
  have shift: "((front s + 1) mod ?c + int i) mod ?c = (front s + int (Suc i)) mod ?c" for i
  proof -
    have "((front s + 1) mod ?c + int i) mod ?c = ((front s + 1) + int i) mod ?c"
      by (rule mod_add_left_eq)
    also have "(front s + 1) + int i = front s + int (Suc i)" by simp
    finally show ?thesis .
  qed
  have "contents s = map (\<lambda>i. buffer s ! nat ((front s + int i) mod ?c)) (0 # map Suc [0..<n])"
    unfolding contents_def n(1) by (simp only: upt_conv_Cons [of 0 "Suc n"] map_Suc_upt)
  also have "\<dots> = buffer s ! nat (front s) #
                   map (\<lambda>i. buffer s ! nat ((front s + int (Suc i)) mod ?c)) [0..<n]"
    using f by (simp add: comp_def)
  finally show ?thesis
    by (simp add: contents_def n(2) shift del: of_nat_Suc)
qed

lemma dequeue_invar_step:
  assumes "invar s" "size_q s \<noteq> 0"
  shows "invar (s\<lparr>front := (front s + 1) mod capacity s, size_q := size_q s - 1\<rparr>)"
proof -
  have c: "0 < capacity s" using assms(1) by (simp add: invar_def)
  have "((front s + 1) mod capacity s + (size_q s - 1)) mod capacity s
          = (front s + size_q s) mod capacity s"
    by (simp add: mod_add_left_eq)
  then show ?thesis
    using assms c by (simp add: invar_def)
qed

lemma length_contents: "length (contents s) = nat (size_q s)"
  by (simp add: contents_def)

subsection \<open>The invariant along a history\<close>

lemma step_Live_cases:
  assumes "step (Live s) c = Returns q'"
  shows "q' = Freed \<or> q' = Live s \<or> q' = Live (s\<lparr>is_shutdown_flag := True\<rparr>)
         \<or> (\<exists>d. c = Enqueue d \<and> \<not> is_shutdown_flag s \<and> size_q s \<noteq> capacity s \<and> enqueue (Live s) d = Returns q')
         \<or> (c = Dequeue \<and> size_q s \<noteq> 0 \<and> (\<exists>x. dequeue (Live s) = Returns (x, q')))"
  using assms
  by (cases c)
     (auto simp: enqueue_def dequeue_def queue_shutdown_def queue_destroy_def is_empty_def
        is_shutdown_def state_of_def Let_def split: if_splits)

lemma invar_shutdown: "invar s \<Longrightarrow> invar (s\<lparr>is_shutdown_flag := True\<rparr>)"
  by (simp add: invar_def)

lemma step_invar:
  assumes "invar_t q" "step q c = Returns q'"
  shows "invar_t q'"
proof (cases q)
  case Null_handle
  with assms(2) show ?thesis
    by (cases c)
       (auto simp: enqueue_def dequeue_def queue_shutdown_def queue_destroy_def is_empty_def
          is_shutdown_def state_of_def invar_t_def)
next
  case Freed
  with assms(2) show ?thesis
    by (cases c)
       (auto simp: enqueue_def dequeue_def queue_shutdown_def queue_destroy_def is_empty_def
          is_shutdown_def state_of_def)
next
  case (Live s)
  then have inv: "invar s" using assms(1) by (simp add: invar_t_def)
  from step_Live_cases [OF assms(2) [unfolded Live]]
  consider "q' = Freed" | "q' = Live s" | "q' = Live (s\<lparr>is_shutdown_flag := True\<rparr>)"
    | d where "\<not> is_shutdown_flag s" "size_q s \<noteq> capacity s" "enqueue (Live s) d = Returns q'"
    | x where "size_q s \<noteq> 0" "dequeue (Live s) = Returns (x, q')"
    by blast
  then show ?thesis
  proof cases
    case 1 then show ?thesis by (simp add: invar_t_def)
  next
    case 2 then show ?thesis using inv by (simp add: invar_t_def)
  next
    case 3 then show ?thesis using inv by (simp add: invar_t_def invar_shutdown)
  next
    case 4
    have lt: "size_q s < capacity s" using inv 4(2) by (simp add: invar_def)
    show ?thesis
      using 4(3) enqueue_invar_step [OF inv lt]
      by (auto simp: enqueue_Live [OF inv 4(1) lt] invar_t_def)
  next
    case 5
    show ?thesis
      using 5(2) dequeue_invar_step [OF inv 5(1)]
      by (auto simp: dequeue_Live [OF inv 5(1)] invar_t_def)
  qed
qed

lemma run_invar_t: "invar_t q \<Longrightarrow> run q cs = Returns q' \<Longrightarrow> invar_t q'"
proof (induction cs arbitrary: q)
  case Nil
  then show ?case by simp
next
  case (Cons c cs)
  then show ?case
    by (auto split: outcome.splits dest: step_invar)
qed

lemma init_invar_t: "queue_init e cap = Returns q \<Longrightarrow> invar_t q"
  by (cases q) (auto simp: invar_t_def dest: init_invar)

lemma run_invar:
  assumes "queue_init e cap = Returns q0" "run q0 cs = Returns (Live s)"
  shows "invar s"
  using run_invar_t [OF init_invar_t [OF assms(1)] assms(2)] by (simp add: invar_t_def)

subsection \<open>Enqueueing and dequeueing in sequence\<close>

lemma enqueue_all_contents:
  assumes "invar s" "\<not> is_shutdown_flag s" "size_q s + int (length xs) \<le> capacity s"
  shows "\<exists>s'. enqueue_all (Live s) xs = Returns (Live s') \<and> invar s' \<and>
           contents s' = contents s @ xs \<and> size_q s' = size_q s + int (length xs) \<and>
           capacity s' = capacity s \<and> \<not> is_shutdown_flag s'"
  using assms
proof (induction xs arbitrary: s)
  case Nil
  then show ?case by simp
next
  case (Cons x xs)
  let ?s1 = "s\<lparr>rear := (front s + size_q s) mod capacity s,
                 buffer := (buffer s)[nat ((front s + size_q s) mod capacity s) := x],
                 size_q := size_q s + 1\<rparr>"
  have lt: "size_q s < capacity s" using Cons.prems(3) by simp
  have e: "enqueue (Live s) x = Returns (Live ?s1)"
    by (rule enqueue_Live [OF Cons.prems(1,2) lt])
  have i1: "invar ?s1" by (rule enqueue_invar_step [OF Cons.prems(1) lt])
  have c1: "contents ?s1 = contents s @ [x]" by (rule contents_snoc [OF Cons.prems(1) lt])
  have f1: "\<not> is_shutdown_flag ?s1" using Cons.prems(2) by simp
  have b1: "size_q ?s1 + int (length xs) \<le> capacity ?s1" using Cons.prems(3) by simp
  from Cons.IH [OF i1 f1 b1] obtain s' where
    "enqueue_all (Live ?s1) xs = Returns (Live s')" "invar s'"
    "contents s' = contents ?s1 @ xs" "size_q s' = size_q ?s1 + int (length xs)"
    "capacity s' = capacity ?s1" "\<not> is_shutdown_flag s'"
    by blast
  then show ?case
    using e c1 by simp
qed

lemma dequeue_n_contents:
  assumes "invar s" "int n \<le> size_q s"
  shows "\<exists>s'. dequeue_n (Live s) n = Returns (take n (contents s), Live s') \<and> invar s' \<and>
           contents s' = drop n (contents s) \<and> size_q s' = size_q s - int n \<and>
           capacity s' = capacity s \<and> is_shutdown_flag s' = is_shutdown_flag s"
  using assms
proof (induction n arbitrary: s)
  case 0
  then show ?case by simp
next
  case (Suc n)
  let ?s1 = "s\<lparr>front := (front s + 1) mod capacity s, size_q := size_q s - 1\<rparr>"
  have ne: "size_q s \<noteq> 0" using Suc.prems(2) by simp
  have d: "dequeue (Live s) = Returns (buffer s ! nat (front s), Live ?s1)"
    by (rule dequeue_Live [OF Suc.prems(1) ne])
  have i1: "invar ?s1" by (rule dequeue_invar_step [OF Suc.prems(1) ne])
  have c: "contents s = buffer s ! nat (front s) # contents ?s1"
    by (rule contents_Cons [OF Suc.prems(1) ne])
  have b1: "int n \<le> size_q ?s1" using Suc.prems(2) by simp
  from Suc.IH [OF i1 b1] obtain s' where
    "dequeue_n (Live ?s1) n = Returns (take n (contents ?s1), Live s')" "invar s'"
    "contents s' = drop n (contents ?s1)" "size_q s' = size_q ?s1 - int n"
    "capacity s' = capacity ?s1" "is_shutdown_flag s' = is_shutdown_flag ?s1"
    by blast
  then show ?case
    using d c by simp
qed

lemma dequeue_n_drained:
  assumes "is_shutdown_flag s" "size_q s = 0"
  shows "dequeue_n (Live s) n = Returns (replicate n NULL, Live s)"
  using assms by (induction n) (simp_all add: dequeue_def)

lemma step_flag:
  assumes "is_shutdown_flag s" "step (Live s) c = Returns (Live s')"
  shows "is_shutdown_flag s'"
  using assms
  by (cases c)
     (auto simp: enqueue_def dequeue_def queue_shutdown_def queue_destroy_def is_empty_def
        is_shutdown_def state_of_def Let_def split: if_splits)

lemma step_not_Live:
  assumes "q \<noteq> Null_handle \<longrightarrow> q = Freed" "step q c = Returns q'"
  shows "q' \<noteq> Null_handle \<longrightarrow> q' = Freed"
  using assms
  by (cases c; cases q)
     (auto simp: enqueue_def dequeue_def queue_shutdown_def queue_destroy_def is_empty_def
        is_shutdown_def state_of_def Let_def split: if_splits)

subsection \<open>The shutdown flag along a history\<close>

lemma step_flag_t:
  assumes "\<forall>s. q = Live s \<longrightarrow> is_shutdown_flag s" "step q c = Returns q'"
  shows "\<forall>s'. q' = Live s' \<longrightarrow> is_shutdown_flag s'"
proof (cases q)
  case (Live s)
  then show ?thesis using assms step_flag by blast
next
  case Null_handle
  then show ?thesis using assms(2) step_not_Live [of q c q'] by auto
next
  case Freed
  then show ?thesis using assms(2) step_not_Live [of q c q'] by auto
qed

lemma run_flag_t:
  assumes "\<forall>s. q = Live s \<longrightarrow> is_shutdown_flag s" "run q cs = Returns q'"
  shows "\<forall>s'. q' = Live s' \<longrightarrow> is_shutdown_flag s'"
  using assms
proof (induction cs arbitrary: q)
  case Nil
  then show ?case by simp
next
  case (Cons c cs)
  from Cons.prems(2) obtain q1 where s: "step q c = Returns q1" and r: "run q1 cs = Returns q'"
    by (auto split: outcome.splits)
  show ?case
    by (rule Cons.IH [OF step_flag_t [OF Cons.prems(1) s] r])
qed

lemma run_shutdowns:
  "0 < n \<Longrightarrow> run (Live s) (replicate n Shutdown) = Returns (Live (s\<lparr>is_shutdown_flag := True\<rparr>))"
proof (induction n arbitrary: s)
  case 0
  then show ?case by simp
next
  case (Suc n)
  then show ?case
    by (cases "n = 0") (simp_all add: queue_shutdown_def)
qed

subsection \<open>Worked histories\<close>

lemma init_fresh: "queue_init env_ok 3 = Returns (Live q_fresh)"
  by (simp add: queue_init_def env_ok_def q_fresh_def Let_def upt_conv_Cons)

lemma run_wrapped: "run (Live q_fresh) [Enqueue (Addr 1), Dequeue] = Returns (Live q_wrapped)"
  by (simp add: q_fresh_def q_wrapped_def enqueue_def dequeue_def state_of_def c_mod_def Let_def)

lemma run_full:
  "run (Live q_fresh)
     [Enqueue (Addr 1), Enqueue (Addr 2), Dequeue, Is_empty, Enqueue (Addr 3), Enqueue (Addr 4)]
   = Returns (Live q_full)"
  by (simp add: q_fresh_def q_full_def enqueue_def dequeue_def is_empty_def state_of_def
      c_mod_def Let_def)

lemma run_shut:
  "run (Live q_fresh)
     [Enqueue (Addr 1), Enqueue (Addr 2), Dequeue, Enqueue (Addr 3), Dequeue, Enqueue (Addr 4),
      Shutdown]
   = Returns (Live q_shut)"
  by (simp add: q_fresh_def q_shut_def enqueue_def dequeue_def queue_shutdown_def state_of_def
      c_mod_def Let_def)

lemma contents_shut: "contents q_shut = [Addr 3, Addr 4]"
  by (simp add: contents_def q_shut_def upt_conv_Cons)

lemma invar_full: "invar q_full"
  by (simp add: invar_def q_full_def)

lemma contents_full: "contents q_full = [Addr 2, Addr 3, Addr 4]"
  by (simp add: contents_def q_full_def upt_conv_Cons)

lemma step_wrapped:
  "step (Live q_wrapped) (Enqueue (Addr 6))
     = Returns (Live (q_wrapped\<lparr>rear := 1, buffer := [Addr 1, Addr 6, NULL], size_q := 1\<rparr>))"
  by (simp add: q_wrapped_def enqueue_def c_mod_def Let_def)

lemma run_after_shut:
  "run (Live q_shut) [Enqueue (Addr 5), Dequeue, Is_shutdown, Shutdown, Dequeue, Dequeue, Is_empty]
   = Returns (Live (q_shut\<lparr>front := 1, size_q := 0\<rparr>))"
  by (simp add: q_shut_def enqueue_def dequeue_def queue_shutdown_def is_empty_def
      is_shutdown_def state_of_def c_mod_def Let_def)

subsection \<open>Further facts about single calls\<close>

lemma step_bounds:
  assumes "0 \<le> size_q s" "size_q s \<le> capacity s" "step (Live s) c = Returns (Live s')"
  shows "0 \<le> size_q s' \<and> size_q s' \<le> capacity s'"
  using assms
  by (cases c)
     (auto simp: enqueue_def dequeue_def queue_shutdown_def queue_destroy_def is_empty_def
        is_shutdown_def state_of_def Let_def split: if_splits)

lemma dequeue_value_NULL:
  assumes "invar s" "is_shutdown_flag s" "NULL \<notin> set (contents s)"
  shows "(\<exists>q'. dequeue (Live s) = Returns (NULL, q')) \<longleftrightarrow> size_q s = 0"
proof (cases "size_q s = 0")
  case True
  then show ?thesis using assms(2) by (simp add: dequeue_def)
next
  case False
  have "buffer s ! nat (front s) \<noteq> NULL"
    using assms(3) contents_Cons [OF assms(1) False] by auto
  then show ?thesis
    using False by (simp add: dequeue_Live [OF assms(1) False])
qed

section \<open>The claims\<close>

text \<open>
  In the theorems below a reachable struct is one that some history of calls produces
  from a queue that \<^verbatim>\<open>queue_init\<close> returned: \<open>queue_init e cap = Returns q0\<close> and
  \<open>run q0 cs = Returns (Live s)\<close>.
\<close>

subsection \<open>C1: first in, first out\<close>

text \<open>
  C1. On a reachable queue that is empty and not shut down, with no other caller, N calls
  of \<^verbatim>\<open>enqueue\<close> followed by N calls of \<^verbatim>\<open>dequeue\<close>, for N at most the capacity, all
  return, and the dequeues return the enqueued items in exactly the order they were
  enqueued; the queue is empty again afterwards.
\<close>

theorem fifo_order:
  assumes "queue_init e cap = Returns q0" and "run q0 cs = Returns (Live s)"
    and "size_q s = 0" and "\<not> is_shutdown_flag s" and "int (length xs) \<le> capacity s"
  shows "\<exists>s1 s2. enqueue_all (Live s) xs = Returns (Live s1) \<and>
           dequeue_n (Live s1) (length xs) = Returns (xs, Live s2) \<and> size_q s2 = 0"
proof -
  have inv: "invar s" by (rule run_invar [OF assms(1,2)])
  have emp: "contents s = []" using assms(3) by (simp add: contents_def)
  have fits: "size_q s + int (length xs) \<le> capacity s" using assms(3,5) by simp
  from enqueue_all_contents [OF inv assms(4) fits] obtain s1 where
    e: "enqueue_all (Live s) xs = Returns (Live s1)" and i1: "invar s1"
    and c1: "contents s1 = xs" and n1: "size_q s1 = int (length xs)"
    using emp assms(3) by auto
  have le: "int (length xs) \<le> size_q s1" using n1 by simp
  from dequeue_n_contents [OF i1 le] obtain s2 where
    "dequeue_n (Live s1) (length xs) = Returns (take (length xs) (contents s1), Live s2)"
    "size_q s2 = size_q s1 - int (length xs)"
    by blast
  then have "dequeue_n (Live s1) (length xs) = Returns (xs, Live s2)" "size_q s2 = 0"
    using c1 n1 by simp_all
  with e show ?thesis by blast
qed

theorem fifo_order_witness:
  "queue_init env_ok 3 = Returns (Live q_fresh) \<and>
   run (Live q_fresh) [Enqueue (Addr 1), Dequeue] = Returns (Live q_wrapped) \<and>
   size_q q_wrapped = 0 \<and> \<not> is_shutdown_flag q_wrapped \<and>
   int (length [Addr 7, NULL, Addr 9]) \<le> capacity q_wrapped \<and>
   (\<exists>s1 s2. enqueue_all (Live q_wrapped) [Addr 7, NULL, Addr 9] = Returns (Live s1) \<and>
      dequeue_n (Live s1) (length [Addr 7, NULL, Addr 9]) = Returns ([Addr 7, NULL, Addr 9], Live s2) \<and>
      size_q s2 = 0)"
proof -
  have h: "size_q q_wrapped = 0" "\<not> is_shutdown_flag q_wrapped"
    "int (length [Addr 7, NULL, Addr 9]) \<le> capacity q_wrapped"
    by (simp_all add: q_wrapped_def)
  show ?thesis
    using fifo_order [OF init_fresh run_wrapped h] init_fresh run_wrapped h by blast
qed

subsection \<open>C2: draining after shutdown\<close>

text \<open>
  C2. On a reachable queue whose shutdown flag is set, \<^verbatim>\<open>dequeue\<close> never blocks. As many
  calls as there are buffered items return exactly those items, oldest first, and every
  call after that returns \<^verbatim>\<open>NULL\<close> and leaves the struct as it is. A single call on a
  queue with \<open>size > 0\<close> returns the oldest item and removes it. The Empty result, that
  is, returning \<^verbatim>\<open>NULL\<close> with nothing removed, occurs if and only if \<open>size = 0\<close>. (The
  pointer value alone does not tell the Empty result from a removed item that is itself
  \<^verbatim>\<open>NULL\<close>; that is claim C10.)
\<close>

theorem drain_after_shutdown:
  assumes "queue_init e cap = Returns q0" and "run q0 cs = Returns (Live s)"
    and "is_shutdown_flag s"
  shows "(\<exists>s'. dequeue_n (Live s) (nat (size_q s)) = Returns (contents s, Live s') \<and>
            size_q s' = 0 \<and>
            (\<forall>n. dequeue_n (Live s') n = Returns (replicate n NULL, Live s'))) \<and>
         (0 < size_q s \<longrightarrow>
            (\<exists>s'. dequeue (Live s) = Returns (hd (contents s), Live s') \<and>
               contents s' = tl (contents s))) \<and>
         (dequeue (Live s) = Returns (NULL, Live s) \<longleftrightarrow> size_q s = 0)"
proof -
  have inv: "invar s" by (rule run_invar [OF assms(1,2)])
  have nn: "0 \<le> size_q s" using inv by (simp add: invar_def)
  have le: "int (nat (size_q s)) \<le> size_q s" using nn by simp
  from dequeue_n_contents [OF inv le] obtain s' where
    d: "dequeue_n (Live s) (nat (size_q s)) = Returns (take (nat (size_q s)) (contents s), Live s')"
    and z: "size_q s' = size_q s - int (nat (size_q s))"
    and f: "is_shutdown_flag s' = is_shutdown_flag s"
    by blast
  have z': "size_q s' = 0" using z nn by simp
  have "dequeue_n (Live s) (nat (size_q s)) = Returns (contents s, Live s')"
    using d by (simp add: length_contents)
  moreover have "\<forall>n. dequeue_n (Live s') n = Returns (replicate n NULL, Live s')"
    using dequeue_n_drained [of s'] f assms(3) z' by simp
  ultimately have first: "\<exists>s'. dequeue_n (Live s) (nat (size_q s)) = Returns (contents s, Live s') \<and>
      size_q s' = 0 \<and> (\<forall>n. dequeue_n (Live s') n = Returns (replicate n NULL, Live s'))"
    using z' by blast
  have second: "\<exists>s'. dequeue (Live s) = Returns (hd (contents s), Live s') \<and>
      contents s' = tl (contents s)" if "0 < size_q s"
  proof -
    have ne: "size_q s \<noteq> 0" using that by simp
    show ?thesis
      using dequeue_Live [OF inv ne] contents_Cons [OF inv ne] by simp
  qed
  have third: "dequeue (Live s) = Returns (NULL, Live s) \<longleftrightarrow> size_q s = 0"
  proof (cases "size_q s = 0")
    case True
    then show ?thesis using assms(3) by (simp add: dequeue_def)
  next
    case False
    have "s\<lparr>front := (front s + 1) mod capacity s, size_q := size_q s - 1\<rparr> \<noteq> s"
    proof
      assume "s\<lparr>front := (front s + 1) mod capacity s, size_q := size_q s - 1\<rparr> = s"
      then have "size_q (s\<lparr>front := (front s + 1) mod capacity s, size_q := size_q s - 1\<rparr>)
                   = size_q s"
        by simp
      then show False by simp
    qed
    then show ?thesis
      using False by (simp add: dequeue_Live [OF inv False])
  qed
  show ?thesis
    using first second third by blast
qed

theorem drain_after_shutdown_witness:
  "queue_init env_ok 3 = Returns (Live q_fresh) \<and>
   run (Live q_fresh)
     [Enqueue (Addr 1), Enqueue (Addr 2), Dequeue, Enqueue (Addr 3), Dequeue, Enqueue (Addr 4),
      Shutdown] = Returns (Live q_shut) \<and>
   is_shutdown_flag q_shut \<and> 0 < size_q q_shut \<and>
   (\<exists>s'. dequeue_n (Live q_shut) 2 = Returns ([Addr 3, Addr 4], Live s') \<and> size_q s' = 0 \<and>
      (\<forall>n. dequeue_n (Live s') n = Returns (replicate n NULL, Live s'))) \<and>
   (\<exists>s'. dequeue (Live q_shut) = Returns (Addr 3, Live s') \<and> contents s' = [Addr 4]) \<and>
   dequeue (Live q_shut) \<noteq> Returns (NULL, Live q_shut)"
proof -
  have h: "is_shutdown_flag q_shut" "0 < size_q q_shut" "nat (size_q q_shut) = 2"
    "size_q q_shut \<noteq> 0"
    by (simp_all add: q_shut_def)
  show ?thesis
    using drain_after_shutdown [OF init_fresh run_shut h(1)] init_fresh run_shut h
    by (simp add: contents_shut)
qed

subsection \<open>C3: enqueue on a queue that is shut down\<close>

text \<open>
  C3. When \<^verbatim>\<open>enqueue\<close> leaves its wait loop with the shutdown flag set, it returns
  without inserting: the struct after the call is the struct before it, field by field
  (buffer, size, front, rear, capacity and flag). This holds for every struct, full or not.
\<close>

theorem enqueue_after_shutdown:
  assumes "is_shutdown_flag s"
  shows "enqueue (Live s) data = Returns (Live s)"
  using assms by (simp add: enqueue_def)

theorem enqueue_after_shutdown_witness:
  "is_shutdown_flag q_shut \<and> enqueue (Live q_shut) (Addr 5) = Returns (Live q_shut) \<and>
   is_shutdown_flag (q_full\<lparr>is_shutdown_flag := True\<rparr>) \<and>
   enqueue (Live (q_full\<lparr>is_shutdown_flag := True\<rparr>)) (Addr 5)
     = Returns (Live (q_full\<lparr>is_shutdown_flag := True\<rparr>))"
proof -
  have h: "is_shutdown_flag q_shut" "is_shutdown_flag (q_full\<lparr>is_shutdown_flag := True\<rparr>)"
    by (simp_all add: q_shut_def)
  show ?thesis
    using enqueue_after_shutdown [OF h(1), of "Addr 5"]
      enqueue_after_shutdown [OF h(2), of "Addr 5"] h
    by simp
qed

subsection \<open>C4: the bounds on the count\<close>

text \<open>
  C4. \<open>0 \<le> size \<le> capacity\<close> holds in the struct that \<^verbatim>\<open>queue_init\<close> returns, every
  call that returns (enqueue, dequeue, shutdown, the two queries) preserves it, and so it
  holds in every reachable struct.
\<close>

theorem count_bounds:
  "(queue_init e cap = Returns (Live s0) \<longrightarrow> 0 \<le> size_q s0 \<and> size_q s0 \<le> capacity s0) \<and>
   (0 \<le> size_q s \<and> size_q s \<le> capacity s \<and> step (Live s) c = Returns (Live s') \<longrightarrow>
      0 \<le> size_q s' \<and> size_q s' \<le> capacity s') \<and>
   (queue_init e cap = Returns q0 \<and> run q0 cs = Returns (Live t) \<longrightarrow>
      0 \<le> size_q t \<and> size_q t \<le> capacity t)"
proof -
  have "0 \<le> size_q s0 \<and> size_q s0 \<le> capacity s0" if "queue_init e cap = Returns (Live s0)"
    using init_invar [OF that] by (simp add: invar_def)
  moreover have "0 \<le> size_q t \<and> size_q t \<le> capacity t"
    if "queue_init e cap = Returns q0" "run q0 cs = Returns (Live t)"
    using run_invar [OF that] by (simp add: invar_def)
  ultimately show ?thesis
    using step_bounds [of s c s'] by blast
qed

theorem count_bounds_witness:
  "queue_init env_ok 3 = Returns (Live q_fresh) \<and>
   0 \<le> size_q q_fresh \<and> size_q q_fresh \<le> capacity q_fresh \<and>
   0 \<le> size_q q_wrapped \<and> size_q q_wrapped \<le> capacity q_wrapped \<and>
   step (Live q_wrapped) (Enqueue (Addr 6))
     = Returns (Live (q_wrapped\<lparr>rear := 1, buffer := [Addr 1, Addr 6, NULL], size_q := 1\<rparr>)) \<and>
   0 \<le> size_q (q_wrapped\<lparr>rear := 1, buffer := [Addr 1, Addr 6, NULL], size_q := 1\<rparr>) \<and>
   size_q (q_wrapped\<lparr>rear := 1, buffer := [Addr 1, Addr 6, NULL], size_q := 1\<rparr>)
     \<le> capacity (q_wrapped\<lparr>rear := 1, buffer := [Addr 1, Addr 6, NULL], size_q := 1\<rparr>) \<and>
   run (Live q_fresh)
     [Enqueue (Addr 1), Enqueue (Addr 2), Dequeue, Is_empty, Enqueue (Addr 3), Enqueue (Addr 4)]
   = Returns (Live q_full) \<and>
   0 \<le> size_q q_full \<and> size_q q_full \<le> capacity q_full"
proof -
  have h: "0 \<le> size_q q_wrapped" "size_q q_wrapped \<le> capacity q_wrapped"
    by (simp_all add: q_wrapped_def)
  show ?thesis
    using count_bounds
      [of env_ok 3 q_fresh q_wrapped "Enqueue (Addr 6)"
          "q_wrapped\<lparr>rear := 1, buffer := [Addr 1, Addr 6, NULL], size_q := 1\<rparr>"
          "Live q_fresh"
          "[Enqueue (Addr 1), Enqueue (Addr 2), Dequeue, Is_empty, Enqueue (Addr 3),
            Enqueue (Addr 4)]"
          q_full]
      init_fresh run_full step_wrapped h
    by simp
qed

subsection \<open>C5: the result of the constructor\<close>

text \<open>
  C5. For a capacity of zero or less the \<^verbatim>\<open>assert\<close> of \<^verbatim>\<open>queue_init\<close> fails and no queue
  is produced. For a capacity above zero the claim says that the constructor yields a queue
  with \<open>size = 0\<close>, \<open>front = 0\<close> and the flag clear. That fails when an acquisition fails:
  lines 32 to 73 then release what was acquired and return \<^verbatim>\<open>NULL\<close>, here for a buffer
  that \<^verbatim>\<open>malloc\<close> refuses.
\<close>

theorem queue_init_null_counterexample:
  "queue_init env_no_buffer 3 = Returns Null_handle"
  by (simp add: queue_init_def env_no_buffer_def env_ok_def)

text \<open>
  C5, amended. A capacity of zero or less fails the \<^verbatim>\<open>assert\<close>. For a capacity above zero,
  when all five acquisitions succeed the constructor yields a queue of that capacity with
  \<open>size = 0\<close>, \<open>front = 0\<close> and the flag clear; when one of them fails it returns
  \<^verbatim>\<open>NULL\<close>.
\<close>

theorem queue_init_result:
  "(cap \<le> 0 \<longrightarrow> queue_init e cap = Aborted) \<and>
   (0 < cap \<and> acquired e \<longrightarrow>
      (\<exists>s. queue_init e cap = Returns (Live s) \<and> capacity s = cap \<and> size_q s = 0 \<and>
         front s = 0 \<and> \<not> is_shutdown_flag s)) \<and>
   (0 < cap \<and> \<not> acquired e \<longrightarrow> queue_init e cap = Returns Null_handle)"
proof (intro conjI impI)
  assume "cap \<le> 0"
  then show "queue_init e cap = Aborted"
    by (simp add: queue_init_def)
next
  assume a: "0 < cap \<and> acquired e"
  then obtain junk where j: "malloc_buffer e = Some junk"
    by (auto simp: acquired_def)
  let ?s = "\<lparr>buffer = map junk [0..<nat cap], capacity = cap, size_q = 0, front = 0,
             rear = - 1, is_shutdown_flag = False\<rparr>"
  have "queue_init e cap = Returns (Live ?s)"
    using a j by (simp add: queue_init_def acquired_def)
  then show "\<exists>s. queue_init e cap = Returns (Live s) \<and> capacity s = cap \<and> size_q s = 0 \<and>
      front s = 0 \<and> \<not> is_shutdown_flag s"
    by simp
next
  assume "0 < cap \<and> \<not> acquired e"
  then show "queue_init e cap = Returns Null_handle"
    by (auto simp: queue_init_def acquired_def Let_def split: option.splits)
qed

theorem queue_init_result_witness:
  "queue_init env_ok 0 = Aborted \<and> queue_init env_ok (- 2) = Aborted \<and>
   acquired env_ok \<and>
   (\<exists>s. queue_init env_ok 3 = Returns (Live s) \<and> capacity s = 3 \<and> size_q s = 0 \<and>
      front s = 0 \<and> \<not> is_shutdown_flag s) \<and>
   \<not> acquired env_no_buffer \<and> queue_init env_no_buffer 3 = Returns Null_handle"
proof -
  have h: "acquired env_ok" "\<not> acquired env_no_buffer"
    by (simp_all add: acquired_def env_ok_def env_no_buffer_def)
  show ?thesis
    using queue_init_result [of 0 env_ok] queue_init_result [of "- 2" env_ok]
      queue_init_result [of 3 env_ok] queue_init_result [of 3 env_no_buffer] h
    by simp
qed

subsection \<open>C6: shutdown is idempotent, the flag monotonic\<close>

text \<open>
  C6. Calling \<^verbatim>\<open>queue_shutdown\<close> any number of times, at least once, leaves the struct
  that one call leaves, with the flag set. Once the flag is set, no history of calls
  leads to a live struct with the flag clear.
\<close>

theorem shutdown_idempotent_monotonic:
  "(0 < n \<longrightarrow>
      run (Live s) (replicate n Shutdown) = Returns (Live (s\<lparr>is_shutdown_flag := True\<rparr>))) \<and>
   (is_shutdown_flag t \<and> run (Live t) cs = Returns (Live t') \<longrightarrow> is_shutdown_flag t')"
  using run_shutdowns [of n s] run_flag_t [of "Live t" cs "Live t'"] by simp

theorem shutdown_idempotent_monotonic_witness:
  "(0::nat) < 3 \<and>
   run (Live q_full) (replicate 3 Shutdown) = Returns (Live (q_full\<lparr>is_shutdown_flag := True\<rparr>)) \<and>
   is_shutdown_flag q_shut \<and>
   run (Live q_shut) [Enqueue (Addr 5), Dequeue, Is_shutdown, Shutdown, Dequeue, Dequeue, Is_empty]
     = Returns (Live (q_shut\<lparr>front := 1, size_q := 0\<rparr>)) \<and>
   is_shutdown_flag (q_shut\<lparr>front := 1, size_q := 0\<rparr>)"
proof -
  have h: "is_shutdown_flag q_shut" by (simp add: q_shut_def)
  show ?thesis
    using shutdown_idempotent_monotonic
      [of 3 q_full q_shut
          "[Enqueue (Addr 5), Dequeue, Is_shutdown, Shutdown, Dequeue, Dequeue, Is_empty]"
          "q_shut\<lparr>front := 1, size_q := 0\<rparr>"]
      run_after_shut h
    by simp
qed

subsection \<open>C7: what shutdown leaves alone\<close>

text \<open>
  C7. \<^verbatim>\<open>queue_shutdown\<close> returns the struct it was given with the flag set and nothing
  else changed: buffer, size, front, rear and capacity are the same, so the buffered
  items are the same, and on a well-formed struct \<^verbatim>\<open>dequeue\<close> then drains exactly
  them.
\<close>

theorem shutdown_frame:
  "\<exists>s'. queue_shutdown (Live s) = Returns (Live s') \<and>
      s' = s\<lparr>is_shutdown_flag := True\<rparr> \<and> is_shutdown_flag s' \<and>
      buffer s' = buffer s \<and> size_q s' = size_q s \<and> front s' = front s \<and>
      rear s' = rear s \<and> capacity s' = capacity s \<and> contents s' = contents s \<and>
      (invar s \<longrightarrow>
         (\<exists>s''. dequeue_n (Live s') (nat (size_q s)) = Returns (contents s, Live s'')))"
proof -
  let ?s' = "s\<lparr>is_shutdown_flag := True\<rparr>"
  have c: "contents ?s' = contents s" by (simp add: contents_def)
  have "\<exists>s''. dequeue_n (Live ?s') (nat (size_q s)) = Returns (contents s, Live s'')"
    if inv: "invar s"
  proof -
    have i: "invar ?s'" by (rule invar_shutdown [OF inv])
    have le: "int (nat (size_q s)) \<le> size_q ?s'" using inv by (simp add: invar_def)
    from dequeue_n_contents [OF i le] show ?thesis
      using c length_contents [of s] by auto
  qed
  then show ?thesis
    using c by (simp add: queue_shutdown_def)
qed

theorem shutdown_frame_witness:
  "invar q_full \<and>
   (\<exists>s'. queue_shutdown (Live q_full) = Returns (Live s') \<and>
      s' = q_full\<lparr>is_shutdown_flag := True\<rparr> \<and> is_shutdown_flag s' \<and>
      buffer s' = [Addr 4, Addr 2, Addr 3] \<and> size_q s' = 3 \<and> front s' = 1 \<and> rear s' = 0 \<and>
      capacity s' = 3 \<and> contents s' = [Addr 2, Addr 3, Addr 4] \<and>
      (\<exists>s''. dequeue_n (Live s') 3 = Returns ([Addr 2, Addr 3, Addr 4], Live s'')))"
proof -
  have h: "buffer q_full = [Addr 4, Addr 2, Addr 3]" "size_q q_full = 3" "front q_full = 1"
    "rear q_full = 0" "capacity q_full = 3" "nat (size_q q_full) = 3"
    by (simp_all add: q_full_def)
  show ?thesis
    using shutdown_frame [of q_full] invar_full
    by (simp add: h contents_full)
qed

subsection \<open>C8: the slot that enqueue writes\<close>

text \<open>
  C8. A queue starts with \<open>rear = -1\<close>, \<open>front = 0\<close>, \<open>size = 0\<close>. In every reachable
  struct \<open>(rear + 1) mod capacity = (front + size) mod capacity\<close>, also with the
  remainder of C in place of \<open>mod\<close>, and an \<^verbatim>\<open>enqueue\<close> that inserts writes its item to
  slot \<open>(front + size) mod capacity\<close> and leaves \<open>rear\<close> there.
\<close>

theorem tail_slot:
  assumes "queue_init e cap = Returns q0" and "run q0 cs = Returns (Live s)"
  shows "(\<forall>s0. q0 = Live s0 \<longrightarrow> rear s0 = - 1 \<and> front s0 = 0 \<and> size_q s0 = 0) \<and>
         (rear s + 1) mod capacity s = (front s + size_q s) mod capacity s \<and>
         c_mod (rear s + 1) (capacity s) = (front s + size_q s) mod capacity s \<and>
         (\<forall>data s'. \<not> is_shutdown_flag s \<and> enqueue (Live s) data = Returns (Live s') \<longrightarrow>
            rear s' = (front s + size_q s) mod capacity s \<and>
            buffer s' = (buffer s)[nat ((front s + size_q s) mod capacity s) := data])"
proof -
  have inv: "invar s" by (rule run_invar [OF assms])
  then have eq: "(rear s + 1) mod capacity s = (front s + size_q s) mod capacity s"
    and c: "0 < capacity s" and r: "0 \<le> rear s + 1" and le: "size_q s \<le> capacity s"
    by (auto simp: invar_def)
  have cm: "c_mod (rear s + 1) (capacity s) = (front s + size_q s) mod capacity s"
    using c r eq by (simp add: c_mod_nonneg)
  have "rear s' = (front s + size_q s) mod capacity s \<and>
        buffer s' = (buffer s)[nat ((front s + size_q s) mod capacity s) := data]"
    if nf: "\<not> is_shutdown_flag s" and en: "enqueue (Live s) data = Returns (Live s')"
    for data s'
  proof (cases "size_q s = capacity s")
    case True
    then show ?thesis using nf en by (simp add: enqueue_def)
  next
    case False
    then have lt: "size_q s < capacity s" using le by simp
    show ?thesis
      using en unfolding enqueue_Live [OF inv nf lt] by auto
  qed
  moreover have "\<forall>s0. q0 = Live s0 \<longrightarrow> rear s0 = - 1 \<and> front s0 = 0 \<and> size_q s0 = 0"
    using init_invar [of e cap] assms(1) by blast
  ultimately show ?thesis
    using eq cm by blast
qed

theorem tail_slot_witness:
  "queue_init env_ok 3 = Returns (Live q_fresh) \<and>
   rear q_fresh = - 1 \<and> front q_fresh = 0 \<and> size_q q_fresh = 0 \<and>
   run (Live q_fresh) [Enqueue (Addr 1), Dequeue] = Returns (Live q_wrapped) \<and>
   (rear q_wrapped + 1) mod capacity q_wrapped = 1 \<and>
   (front q_wrapped + size_q q_wrapped) mod capacity q_wrapped = 1 \<and>
   c_mod (rear q_wrapped + 1) (capacity q_wrapped) = 1 \<and>
   \<not> is_shutdown_flag q_wrapped \<and>
   enqueue (Live q_wrapped) (Addr 6)
     = Returns (Live (q_wrapped\<lparr>rear := 1, buffer := [Addr 1, Addr 6, NULL], size_q := 1\<rparr>)) \<and>
   rear (q_wrapped\<lparr>rear := 1, buffer := [Addr 1, Addr 6, NULL], size_q := 1\<rparr>) = 1 \<and>
   buffer (q_wrapped\<lparr>rear := 1, buffer := [Addr 1, Addr 6, NULL], size_q := 1\<rparr>)
     = (buffer q_wrapped)[1 := Addr 6]"
proof -
  have h: "\<not> is_shutdown_flag q_wrapped"
    "enqueue (Live q_wrapped) (Addr 6)
       = Returns (Live (q_wrapped\<lparr>rear := 1, buffer := [Addr 1, Addr 6, NULL], size_q := 1\<rparr>))"
    "(front q_wrapped + size_q q_wrapped) mod capacity q_wrapped = 1"
    by (simp_all add: q_wrapped_def enqueue_def c_mod_def Let_def)
  have t: "rear q_fresh = - 1 \<and> front q_fresh = 0 \<and> size_q q_fresh = 0 \<and>
           (rear q_wrapped + 1) mod capacity q_wrapped = 1 \<and>
           c_mod (rear q_wrapped + 1) (capacity q_wrapped) = 1 \<and>
           rear (q_wrapped\<lparr>rear := 1, buffer := [Addr 1, Addr 6, NULL], size_q := 1\<rparr>) = 1 \<and>
           buffer (q_wrapped\<lparr>rear := 1, buffer := [Addr 1, Addr 6, NULL], size_q := 1\<rparr>)
             = (buffer q_wrapped)[1 := Addr 6]"
    using tail_slot [OF init_fresh run_wrapped] h by (simp add: h(3))
  show ?thesis
    using t h init_fresh run_wrapped by simp
qed

subsection \<open>C9: calls on the null handle\<close>

text \<open>
  C9. On a \<^verbatim>\<open>NULL\<close> handle every function returns at once and touches nothing:
  \<^verbatim>\<open>enqueue\<close>, \<^verbatim>\<open>queue_shutdown\<close> and \<^verbatim>\<open>queue_destroy\<close> return, \<^verbatim>\<open>dequeue\<close> returns
  \<^verbatim>\<open>NULL\<close>, and \<^verbatim>\<open>is_empty\<close> and \<^verbatim>\<open>is_shutdown\<close> return true.
\<close>

theorem null_handle_calls:
  "enqueue Null_handle data = Returns Null_handle \<and>
   dequeue Null_handle = Returns (NULL, Null_handle) \<and>
   queue_shutdown Null_handle = Returns Null_handle \<and>
   queue_destroy Null_handle = Returns Null_handle \<and>
   is_empty Null_handle = Returns (True, Null_handle) \<and>
   is_shutdown Null_handle = Returns (True, Null_handle)"
  by (simp add: enqueue_def dequeue_def queue_shutdown_def queue_destroy_def is_empty_def
      is_shutdown_def)

subsection \<open>C10: a null item and the Empty result\<close>

text \<open>
  C10. \<^verbatim>\<open>enqueue\<close> accepts \<^verbatim>\<open>NULL\<close> as an item: on a reachable empty queue that is not
  shut down it stores it, and the next \<^verbatim>\<open>dequeue\<close> removes it and returns \<^verbatim>\<open>NULL\<close>.
  After a shutdown, \<^verbatim>\<open>dequeue\<close> on the now empty queue returns \<^verbatim>\<open>NULL\<close> as well, with
  nothing removed. The two calls return the same value, so the value does not tell a
  removed null item from the Empty result.
\<close>

theorem null_item_indistinguishable:
  assumes "queue_init e cap = Returns q0" and "run q0 cs = Returns (Live s)"
    and "size_q s = 0" and "\<not> is_shutdown_flag s"
  shows "\<exists>s1 s2 s3. enqueue (Live s) NULL = Returns (Live s1) \<and> contents s1 = [NULL] \<and>
           size_q s1 = 1 \<and>
           dequeue (Live s1) = Returns (NULL, Live s2) \<and> size_q s2 = 0 \<and>
           queue_shutdown (Live s2) = Returns (Live s3) \<and>
           dequeue (Live s3) = Returns (NULL, Live s3)"
proof -
  have inv: "invar s" by (rule run_invar [OF assms(1,2)])
  have lt: "size_q s < capacity s" using inv assms(3) by (simp add: invar_def)
  have emp: "contents s = []" using assms(3) by (simp add: contents_def)
  let ?s1 = "s\<lparr>rear := (front s + size_q s) mod capacity s,
                 buffer := (buffer s)[nat ((front s + size_q s) mod capacity s) := NULL],
                 size_q := size_q s + 1\<rparr>"
  have e: "enqueue (Live s) NULL = Returns (Live ?s1)"
    by (rule enqueue_Live [OF inv assms(4) lt])
  have i1: "invar ?s1" by (rule enqueue_invar_step [OF inv lt])
  have c1: "contents ?s1 = [NULL]" using contents_snoc [OF inv lt, where d = NULL] emp by simp
  have n1: "size_q ?s1 = 1" "size_q ?s1 \<noteq> 0" using assms(3) by simp_all
  let ?s2 = "?s1\<lparr>front := (front ?s1 + 1) mod capacity ?s1, size_q := size_q ?s1 - 1\<rparr>"
  have hd1: "buffer ?s1 ! nat (front ?s1) = NULL"
    using contents_Cons [OF i1 n1(2)] c1 by simp
  have d: "dequeue (Live ?s1) = Returns (NULL, Live ?s2)"
    using dequeue_Live [OF i1 n1(2)] hd1 by simp
  have n2: "size_q ?s2 = 0" using assms(3) by simp
  have sh: "queue_shutdown (Live ?s2) = Returns (Live (?s2\<lparr>is_shutdown_flag := True\<rparr>))"
    by (simp add: queue_shutdown_def)
  have d3: "dequeue (Live (?s2\<lparr>is_shutdown_flag := True\<rparr>))
              = Returns (NULL, Live (?s2\<lparr>is_shutdown_flag := True\<rparr>))"
    using n2 by (simp add: dequeue_def)
  show ?thesis
    using e c1 n1(1) d n2 sh d3 by blast
qed

theorem null_item_indistinguishable_witness:
  "queue_init env_ok 3 = Returns (Live q_fresh) \<and>
   run (Live q_fresh) [Enqueue (Addr 1), Dequeue] = Returns (Live q_wrapped) \<and>
   size_q q_wrapped = 0 \<and> \<not> is_shutdown_flag q_wrapped \<and>
   (\<exists>s1 s2 s3. enqueue (Live q_wrapped) NULL = Returns (Live s1) \<and> contents s1 = [NULL] \<and>
      size_q s1 = 1 \<and>
      dequeue (Live s1) = Returns (NULL, Live s2) \<and> size_q s2 = 0 \<and>
      queue_shutdown (Live s2) = Returns (Live s3) \<and>
      dequeue (Live s3) = Returns (NULL, Live s3))"
proof -
  have h: "size_q q_wrapped = 0" "\<not> is_shutdown_flag q_wrapped"
    by (simp_all add: q_wrapped_def)
  show ?thesis
    using null_item_indistinguishable [OF init_fresh run_wrapped h] init_fresh run_wrapped h
    by blast
qed

end
